theory Spec2Isabelle
  imports Complex_Main "HOL-Library.Word"
begin

section \<open>Numbers\<close>

text \<open>
  Every value of hue-wheel.v1.0.4.js is a JavaScript Number. The embedding takes a
  Number to be a real and the arithmetic operators to be exact; NaN, the infinities
  and the sign of zero are not represented. For \<open>hsl2rgb\<close>, where the rounding of
  binary64 arithmetic changes the result of \<open>Math.floor\<close>, the rounded operations
  are written out in a second definition (section \<open>hsl2rgb in binary64 arithmetic\<close>).
\<close>

text \<open>\<open>Math.trunc\<close>: the integer part, rounded towards zero.\<close>

definition trunc :: "real \<Rightarrow> int" where
  "trunc q = (if 0 \<le> q then \<lfloor>q\<rfloor> else \<lceil>q\<rceil>)"

text \<open>
  The operator \<open>a % b\<close> on Numbers: the remainder of the division truncated towards
  zero, so the result has the sign of the dividend \<open>a\<close>.
\<close>

definition js_rem :: "real \<Rightarrow> real \<Rightarrow> real" where
  "js_rem a b = a - b * of_int (trunc (a / b))"

text \<open>The mathematical modulo: the remainder of the floored division, in \<open>[0, b)\<close> for \<open>0 < b\<close>.\<close>

definition floor_mod :: "real \<Rightarrow> real \<Rightarrow> real" where
  "floor_mod a b = a - b * of_int \<lfloor>a / b\<rfloor>"

section \<open>Color converter\<close>

text \<open>\<open>roundUp(num, at = 5)\<close>, lines 16-20.\<close>

definition roundUp :: "real \<Rightarrow> real \<Rightarrow> int" where
  "roundUp num at' =
     (let add_on = (10 - at') * (1 / 10)
      in if num + add_on \<ge> of_int \<lceil>num\<rceil> then \<lceil>num\<rceil> else \<lfloor>num\<rfloor>)"

text \<open>
  \<open>hsl2rgb(hue, sat, lig)\<close>, lines 32-82. The switch on \<open>Math.floor(intermediate_hue)\<close>
  keeps the source's seven cases and its default.
\<close>

definition intermediate_rgb :: "int \<Rightarrow> real \<Rightarrow> real \<Rightarrow> real list" where
  "intermediate_rgb sector chroma intermediate_value =
     (if sector = 0 then [chroma, intermediate_value, 0]
      else if sector = 1 then [intermediate_value, chroma, 0]
      else if sector = 2 then [0, chroma, intermediate_value]
      else if sector = 3 then [0, intermediate_value, chroma]
      else if sector = 4 then [intermediate_value, 0, chroma]
      else if sector = 5 then [chroma, 0, intermediate_value]
      else if sector = 6 then [chroma, 0, intermediate_value]
      else [0, 0, 0])"

definition hsl2rgb :: "real \<Rightarrow> real \<Rightarrow> real \<Rightarrow> int list" where
  "hsl2rgb hue sat lig =
     (let chroma = (1 - \<bar>2 * lig - 1\<bar>) * sat;
          intermediate_hue = hue / 60;
          intermediate_value = chroma * (1 - \<bar>js_rem intermediate_hue 2 - 1\<bar>);
          add_on = lig - chroma * (1 / 2);
          irgb = intermediate_rgb \<lfloor>intermediate_hue\<rfloor> chroma intermediate_value
      in [\<lfloor>(irgb ! 0 + add_on) * 255\<rfloor>,
          \<lfloor>(irgb ! 1 + add_on) * 255\<rfloor>,
          \<lfloor>(irgb ! 2 + add_on) * 255\<rfloor>])"

text \<open>
  \<open>rgb2hsl(R, G, B)\<close>, lines 94-134. The channels are documented as integers; the
  result is the array \<open>[hue, saturation, lightness]\<close>.
\<close>

definition rgb2hsl_hue :: "real \<Rightarrow> real \<Rightarrow> real \<Rightarrow> real" where
  "rgb2hsl_hue r g b =
     (let MAX' = max r (max g b);
          MIN' = min r (min g b);
          hue = (if MAX' = MIN' then 0
                 else if MAX' = r then 60 * (g - b) / (MAX' - MIN')
                 else if MAX' = g then 60 * (2 + (b - r) / (MAX' - MIN'))
                 else 60 * (4 + (r - g) / (MAX' - MIN')))
      in if hue < 0 then hue + 360 else hue)"

definition rgb2hsl :: "int \<Rightarrow> int \<Rightarrow> int \<Rightarrow> real list" where
  "rgb2hsl R G B =
     (let r = of_int R / 255;
          g = of_int G / 255;
          b = of_int B / 255;
          MAX' = max r (max g b);
          MIN' = min r (min g b);
          hue = rgb2hsl_hue r g b;
          lightness = (MAX' + MIN') * (1 / 2);
          saturation = (if MAX' = 0 \<or> MIN' = 1 then 0
                        else (MAX' - lightness) / min lightness (1 - lightness))
      in [of_int (roundUp hue 5),
          of_int (roundUp (saturation * 100) 5) * (1 / 100),
          of_int (roundUp (lightness * 100) 5) * (1 / 100)])"

section \<open>hsl2rgb in binary64 arithmetic\<close>

text \<open>
  A Number is an IEEE 754 binary64 value and every arithmetic operator rounds its exact
  result to the nearest representable value, ties to the even significand. \<open>f64\<close>
  is that rounding on the reals: \<open>expo\<close> finds the binary exponent of its argument,
  \<open>ulp\<close> is the spacing of the 53-bit significands at that exponent (fixed at
  \<open>2 powr - 1074\<close> below the normal range), and the quotient is rounded by
  \<open>round_even\<close>. Overflow to infinity is not represented, and the recursion of
  \<open>expo\<close> is bounded by 1100 halvings or doublings, which covers every exponent
  of the format.
\<close>

definition round_even :: "real \<Rightarrow> int" where
  "round_even m =
     (let f = \<lfloor>m\<rfloor>; d = m - of_int f
      in if d < 1 / 2 then f else if 1 / 2 < d then f + 1 else if even f then f else f + 1)"

fun expo :: "nat \<Rightarrow> real \<Rightarrow> int" where
  "expo 0 x = 0"
| "expo (Suc n) x =
     (if 2 \<le> \<bar>x\<bar> then expo n (x / 2) + 1
      else if \<bar>x\<bar> < 1 then expo n (x * 2) - 1
      else 0)"

definition ulp :: "int \<Rightarrow> real" where
  "ulp e = (if 52 \<le> e then 2 ^ nat (e - 52) else 1 / 2 ^ nat (52 - e))"

definition f64 :: "real \<Rightarrow> real" where
  "f64 x = (if x = 0 then 0
            else let u = ulp (max (expo 1100 x) (- 1022)) in of_int (round_even (x / u)) * u)"

definition fadd :: "real \<Rightarrow> real \<Rightarrow> real" where
  "fadd a b = f64 (a + b)"

definition fsub :: "real \<Rightarrow> real \<Rightarrow> real" where
  "fsub a b = f64 (a - b)"

definition fmul :: "real \<Rightarrow> real \<Rightarrow> real" where
  "fmul a b = f64 (a * b)"

definition fdiv :: "real \<Rightarrow> real \<Rightarrow> real" where
  "fdiv a b = f64 (a / b)"

text \<open>
  \<open>hsl2rgb\<close> again, lines 32-82, with every \<open>+\<close>, \<open>-\<close>, \<open>*\<close> and
  \<open>/\<close> of the source rounded where it is evaluated. \<open>Math.abs\<close>,
  \<open>Math.floor\<close> and \<open>%\<close> are exact on binary64 values. The arguments are
  taken to be binary64 values already.
\<close>

definition hsl2rgb_f64 :: "real \<Rightarrow> real \<Rightarrow> real \<Rightarrow> int list" where
  "hsl2rgb_f64 hue sat lig =
     (let chroma = fmul (fsub 1 \<bar>fsub (fmul 2 lig) 1\<bar>) sat;
          intermediate_hue = fdiv hue 60;
          intermediate_value = fmul chroma (fsub 1 \<bar>fsub (js_rem intermediate_hue 2) 1\<bar>);
          add_on = fsub lig (fmul chroma (1 / 2));
          irgb = intermediate_rgb \<lfloor>intermediate_hue\<rfloor> chroma intermediate_value
      in [\<lfloor>fmul (fadd (irgb ! 0) add_on) 255\<rfloor>,
          \<lfloor>fmul (fadd (irgb ! 1) add_on) 255\<rfloor>,
          \<lfloor>fmul (fadd (irgb ! 2) add_on) 255\<rfloor>])"

section \<open>Hue mapper\<close>

text \<open>
  \<open>getHue(redStart, theta, style = 0)\<close>, lines 143-156. \<open>theta || 1\<close> replaces a
  \<open>theta\<close> of zero by one; \<open>style !== 0\<close> selects the reflected angle.
\<close>

definition getHue :: "real \<Rightarrow> real \<Rightarrow> real \<Rightarrow> real" where
  "getHue redStart theta style =
     (let temp = (if theta = 0 then 1 else theta);
          temp = (if style \<noteq> 0 then js_rem (360 + 2 * redStart - temp) 360 else temp)
      in js_rem (360 + temp - redStart) 360)"





text \<open>
  The dividends that one call of \<open>getHue\<close> passes to \<open>%\<close>, in the order of
  evaluation, and the truncated quotients of those divisions (the number of whole turns
  that \<open>%\<close> removes).
\<close>

definition getHue_dividends :: "real \<Rightarrow> real \<Rightarrow> real \<Rightarrow> real list" where
  "getHue_dividends redStart theta style =
     (let temp = (if theta = 0 then 1 else theta)
      in if style \<noteq> 0
         then [360 + 2 * redStart - temp,
               360 + js_rem (360 + 2 * redStart - temp) 360 - redStart]
         else [360 + temp - redStart])"


section \<open>Wheel rasterizer\<close>

text \<open>
  The pixel loop of \<open>drawHueWheel\<close>, lines 225-274. \<open>pixels\<close> is the
  \<open>Uint8ClampedArray\<close> of the image: a store converts the Number to a byte by
  clamping to \<open>[0, 255]\<close> and rounding ties to even, and a store at an index that is
  not an integer inside the array is ignored.
\<close>

type_synonym byte = "8 word"

definition to_uint8_clamp :: "real \<Rightarrow> byte" where
  "to_uint8_clamp v = (if v \<le> 0 then 0 else if 255 \<le> v then 255 else word_of_int (round_even v))"

definition px_set :: "byte list \<Rightarrow> real \<Rightarrow> real \<Rightarrow> byte list" where
  "px_set pixels index v =
     (if index = of_int \<lfloor>index\<rfloor> \<and> 0 \<le> index \<and> index < of_nat (length pixels)
      then pixels[nat \<lfloor>index\<rfloor> := to_uint8_clamp v]
      else pixels)"

text \<open>
  \<open>Math.atan2(y, x)\<close> on the reals. With a zero of either sign for \<open>y\<close> and a negative
  \<open>x\<close> the source gets \<open>pi\<close> or \<open>- pi\<close>; both give the angle 180 after line 251.
\<close>

definition atan2 :: "real \<Rightarrow> real \<Rightarrow> real" where
  "atan2 y x =
     (if 0 < x then arctan (y / x)
      else if x < 0 then (if 0 \<le> y then arctan (y / x) + pi else arctan (y / x) - pi)
      else if 0 < y then pi / 2
      else if y < 0 then - pi / 2
      else 0)"

text \<open>
  The variables of \<open>drawHueWheel\<close> that the loop reads: the two radii after the
  multiplication by the device pixel ratio (lines 203-204) and the five parameters of
  the color, after their defaults.
\<close>

record wheel =
  outer_radius :: real
  inner_radius :: real
  redStart :: real
  style :: real
  saturation :: real
  lightness :: real
  opacity :: real

text \<open>The body of the inner loop, lines 227-272; the first branch is the \<open>continue\<close>.\<close>

definition fill_pixel :: "wheel \<Rightarrow> real \<Rightarrow> real \<Rightarrow> byte list \<Rightarrow> byte list" where
  "fill_pixel w x y pixels =
     (let square_o = outer_radius w * outer_radius w;
          square_i = inner_radius w * inner_radius w;
          square_d = x * x + y * y
      in if square_d > square_o \<or> square_d < square_i then pixels
         else
           let r_len = 2 * outer_radius w;
               adjusted_x = x + outer_radius w;
               adjusted_y = y + outer_radius w;
               index = (adjusted_y * r_len + adjusted_x) * 4;
               theta = js_rem (360 + atan2 (- y) x * 360 / (2 * pi)) 360;
               hue = getHue (redStart w) theta (style w);
               rgb = hsl2rgb hue (saturation w) (lightness w);
               pixels = px_set pixels (index + 0) (of_int (rgb ! 0));
               pixels = px_set pixels (index + 1) (of_int (rgb ! 1));
               pixels = px_set pixels (index + 2) (of_int (rgb ! 2))
           in px_set pixels (index + 3) (opacity w))"

text \<open>
  The loop over \<open>y\<close> (line 226) and the loop over \<open>x\<close> (line 225). Each runs while its
  variable is below \<open>outer_radius\<close> and adds one per round, so the distance to
  \<open>outer_radius\<close>, rounded up, decreases.
\<close>

function column_loop :: "wheel \<Rightarrow> real \<Rightarrow> real \<Rightarrow> byte list \<Rightarrow> byte list" where
  "column_loop w x y pixels =
     (if y < outer_radius w then column_loop w x (y + 1) (fill_pixel w x y pixels) else pixels)"
  by pat_completeness auto
termination
proof (relation "measure (\<lambda>(w, x, y, pixels). nat \<lceil>outer_radius w - y\<rceil>)")
  show "wf (measure (\<lambda>(w, x, y, pixels). nat \<lceil>outer_radius w - y\<rceil>))" by simp
next
  fix w :: wheel and x y :: real and pixels :: "byte list"
  assume "y < outer_radius w"
  then have "0 < \<lceil>outer_radius w - y\<rceil>" "\<lceil>outer_radius w - (y + 1)\<rceil> = \<lceil>outer_radius w - y\<rceil> - 1"
    by (simp, linarith)
  then show "((w, x, y + 1, fill_pixel w x y pixels), (w, x, y, pixels))
      \<in> measure (\<lambda>(w, x, y, pixels). nat \<lceil>outer_radius w - y\<rceil>)"
    by simp
qed

function wheel_loop :: "wheel \<Rightarrow> real \<Rightarrow> byte list \<Rightarrow> byte list" where
  "wheel_loop w x pixels =
     (if x < outer_radius w
      then wheel_loop w (x + 1) (column_loop w x (- outer_radius w) pixels)
      else pixels)"
  by pat_completeness auto
termination
proof (relation "measure (\<lambda>(w, x, pixels). nat \<lceil>outer_radius w - x\<rceil>)")
  show "wf (measure (\<lambda>(w, x, pixels). nat \<lceil>outer_radius w - x\<rceil>))" by simp
next
  fix w :: wheel and x :: real and pixels :: "byte list"
  assume "x < outer_radius w"
  then have "0 < \<lceil>outer_radius w - x\<rceil>" "\<lceil>outer_radius w - (x + 1)\<rceil> = \<lceil>outer_radius w - x\<rceil> - 1"
    by (simp, linarith)
  then show "((w, x + 1, column_loop w x (- outer_radius w) pixels), (w, x, pixels))
      \<in> measure (\<lambda>(w, x, pixels). nat \<lceil>outer_radius w - x\<rceil>)"
    by simp
qed

declare column_loop.simps [simp del] wheel_loop.simps [simp del]

text \<open>
  \<open>drawHueWheel\<close>, lines 170-283, without the canvas: \<open>scale\<close> is
  \<open>window.devicePixelRatio\<close>, an optional parameter that is absent takes the default of
  the destructuring pattern, and \<open>pixels\<close> is the \<open>data\<close> array of the image that
  \<open>createImageData\<close> returned. The result is the array handed to \<open>putImageData\<close>.
\<close>

definition drawHueWheel ::
  "real \<Rightarrow> real \<Rightarrow> real \<Rightarrow> real option \<Rightarrow> real option \<Rightarrow> real option \<Rightarrow> real option
    \<Rightarrow> real option \<Rightarrow> byte list \<Rightarrow> byte list" where
  "drawHueWheel scale inner_radius0 thickness redStart0 style0 saturation0 lightness0 opacity0
       pixels =
     (let w = \<lparr>outer_radius = (inner_radius0 + thickness) * scale,
               inner_radius = inner_radius0 * scale,
               redStart = (case redStart0 of None \<Rightarrow> 90 | Some v \<Rightarrow> v),
               style = (case style0 of None \<Rightarrow> 0 | Some v \<Rightarrow> v),
               saturation = (case saturation0 of None \<Rightarrow> 1 | Some v \<Rightarrow> v),
               lightness = (case lightness0 of None \<Rightarrow> 1 / 2 | Some v \<Rightarrow> v),
               opacity = (case opacity0 of None \<Rightarrow> 255 | Some v \<Rightarrow> v)\<rparr>
      in wheel_loop w (- outer_radius w) pixels)"

text \<open>
  Names for the parts of \<open>fill_pixel\<close>: the test that is the negation of the
  \<open>continue\<close> condition, the four bytes stored for a pixel, and the four stores at
  consecutive indices.
\<close>

definition in_ring :: "wheel \<Rightarrow> real \<Rightarrow> real \<Rightarrow> bool" where
  "in_ring w x y =
     (inner_radius w * inner_radius w \<le> x * x + y * y
      \<and> x * x + y * y \<le> outer_radius w * outer_radius w)"

definition pixel_rgba :: "wheel \<Rightarrow> real \<Rightarrow> real \<Rightarrow> byte list" where
  "pixel_rgba w x y =
     (let theta = js_rem (360 + atan2 (- y) x * 360 / (2 * pi)) 360;
          hue = getHue (redStart w) theta (style w);
          rgb = hsl2rgb hue (saturation w) (lightness w)
      in [to_uint8_clamp (of_int (rgb ! 0)), to_uint8_clamp (of_int (rgb ! 1)),
          to_uint8_clamp (of_int (rgb ! 2)), to_uint8_clamp (opacity w)])"

definition write_rgba :: "byte list \<Rightarrow> nat \<Rightarrow> byte list \<Rightarrow> byte list" where
  "write_rgba pixels m bs = pixels[m := bs ! 0, m + 1 := bs ! 1, m + 2 := bs ! 2, m + 3 := bs ! 3]"

text \<open>
  For an image of \<open>n\<close> by \<open>n\<close> pixels: the round of the loop for the pixel in column
  \<open>fst p\<close> and row \<open>snd p\<close>, the pixel that byte \<open>idx\<close> of the array belongs to, and
  the value of that byte computed from its own pixel alone (\<open>old\<close> is the byte held
  before).
\<close>

definition pixel_step :: "wheel \<Rightarrow> nat \<Rightarrow> byte list \<Rightarrow> nat \<times> nat \<Rightarrow> byte list" where
  "pixel_step w n pixels p =
     (let x = real (fst p) - outer_radius w; y = real (snd p) - outer_radius w
      in if in_ring w x y then write_rgba pixels (4 * (snd p * n + fst p)) (pixel_rgba w x y)
         else pixels)"

definition pixel_of :: "nat \<Rightarrow> nat \<Rightarrow> nat \<times> nat" where
  "pixel_of n idx = (idx div 4 mod n, idx div 4 div n)"

definition rendered_byte :: "wheel \<Rightarrow> nat \<Rightarrow> byte \<Rightarrow> nat \<Rightarrow> byte" where
  "rendered_byte w n old idx =
     (let x = real (fst (pixel_of n idx)) - outer_radius w;
          y = real (snd (pixel_of n idx)) - outer_radius w
      in if in_ring w x y then pixel_rgba w x y ! (idx mod 4) else old)"

section \<open>The remainder operators\<close>

lemma js_rem_0_2: "js_rem 0 2 = 0"
  by (simp add: js_rem_def trunc_def)

lemma js_rem_6_2: "js_rem 6 2 = 0"
  by (simp add: js_rem_def trunc_def)

lemma js_rem_nonneg_dividend: "0 \<le> a \<Longrightarrow> js_rem a 360 = floor_mod a 360"
  by (simp add: js_rem_def floor_mod_def trunc_def)

lemma floor_mod_360_range: "0 \<le> floor_mod a 360 \<and> floor_mod a 360 < 360"
proof -
  have "of_int \<lfloor>a / 360\<rfloor> \<le> a / 360" "a / 360 < of_int \<lfloor>a / 360\<rfloor> + 1"
    by linarith+
  then show ?thesis
    unfolding floor_mod_def by (simp add: field_simps)
qed

lemma js_rem_2_range:
  assumes "0 \<le> a"
  shows "0 \<le> js_rem a 2 \<and> js_rem a 2 < 2"
proof -
  have "of_int \<lfloor>a / 2\<rfloor> \<le> a / 2" "a / 2 < of_int \<lfloor>a / 2\<rfloor> + 1"
    by linarith+
  then show ?thesis
    using assms by (simp add: js_rem_def trunc_def field_simps)
qed


section \<open>Evaluating the binary64 rounding\<close>

lemma expo_numeral:
  "expo (numeral k) x =
     (if 2 \<le> \<bar>x\<bar> then expo (pred_numeral k) (x / 2) + 1
      else if \<bar>x\<bar> < 1 then expo (pred_numeral k) (x * 2) - 1
      else 0)"
  by (simp add: numeral_eq_Suc)

lemmas f64_eval = f64_def expo_numeral ulp_def round_even_def Let_def
  fadd_def fsub_def fmul_def fdiv_def

lemma f64_0: "f64 0 = 0"
  by (simp add: f64_def)

lemma f64_1: "f64 1 = 1"
  by (simp add: f64_eval)

lemma f64_minus_1: "f64 (- 1) = - 1"
  by (simp add: f64_eval)

lemma f64_2: "f64 2 = 2"
  by (simp add: f64_eval)

lemma f64_6: "f64 6 = 6"
  by (simp add: f64_eval)

lemma f64_255: "f64 255 = 255"
  by (simp add: f64_eval)

text \<open>The binary64 value of the literal \<open>0.15\<close>.\<close>

lemma f64_15_100: "f64 (15 / 100) = 5404319552844595 / 2 ^ 55"
  by (simp add: f64_eval)

text \<open>
  \<open>hsl2rgb_f64\<close> one operation at a time: each premise is the rounded result of one
  operator of the source.
\<close>

lemma hsl2rgb_f64_steps:
  assumes "fmul 2 lig = a1" "fsub a1 1 = a2" "fsub 1 \<bar>a2\<bar> = a4" "fmul a4 sat = chroma"
    and "fdiv hue 60 = ih" "fsub (js_rem ih 2) 1 = b2" "fsub 1 \<bar>b2\<bar> = b4" "fmul chroma b4 = iv"
    and "fmul chroma (1 / 2) = hf" "fsub lig hf = add_on"
    and "intermediate_rgb \<lfloor>ih\<rfloor> chroma iv = [i0, i1, i2]"
    and "fmul (fadd i0 add_on) 255 = c0" "fmul (fadd i1 add_on) 255 = c1"
      "fmul (fadd i2 add_on) 255 = c2"
  shows "hsl2rgb_f64 hue sat lig = [\<lfloor>c0\<rfloor>, \<lfloor>c1\<rfloor>, \<lfloor>c2\<rfloor>]"
  using assms by (simp add: hsl2rgb_f64_def Let_def)

section \<open>Properties of the color converter\<close>

text \<open>
  C9. A hue of exactly 360 falls into sector 6 and a hue of 0 into sector 0; the
  intermediate value is zero at both, so \<open>hsl2rgb\<close> returns the same triple for every
  saturation and lightness. This holds in exact arithmetic and in binary64 arithmetic.
\<close>

theorem hsl2rgb_360_eq_0:
  "hsl2rgb 360 sat lig = hsl2rgb 0 sat lig \<and> hsl2rgb_f64 360 sat lig = hsl2rgb_f64 0 sat lig"
proof
  show "hsl2rgb 360 sat lig = hsl2rgb 0 sat lig"
    by (simp add: hsl2rgb_def intermediate_rgb_def js_rem_0_2 js_rem_6_2)
next
  have "fdiv 360 60 = 6" "fdiv 0 60 = 0"
    by (simp_all add: fdiv_def f64_6 f64_0)
  moreover have "fsub 1 \<bar>fsub 0 1\<bar> = 0"
    by (simp add: fsub_def f64_minus_1 f64_0)
  moreover have "fmul c 0 = 0" for c
    by (simp add: fmul_def f64_0)
  ultimately show "hsl2rgb_f64 360 sat lig = hsl2rgb_f64 0 sat lig"
    by (simp add: hsl2rgb_f64_def Let_def intermediate_rgb_def js_rem_0_2 js_rem_6_2)
qed

text \<open>
  C10. At lightness 0 the result is black and at lightness 1 it is white, whatever the
  hue and the saturation are: the chroma is zero, so every channel is
  \<open>Math.floor(lig * 255)\<close>. This holds in exact arithmetic and in binary64 arithmetic.
\<close>

theorem hsl2rgb_lightness_extremes:
  "hsl2rgb hue sat 0 = [0, 0, 0] \<and> hsl2rgb hue sat 1 = [255, 255, 255]
   \<and> hsl2rgb_f64 hue sat 0 = [0, 0, 0] \<and> hsl2rgb_f64 hue sat 1 = [255, 255, 255]"
proof -
  have exact: "hsl2rgb hue sat 0 = [0, 0, 0]" "hsl2rgb hue sat 1 = [255, 255, 255]"
    by (simp_all add: hsl2rgb_def intermediate_rgb_def Let_def)
  have z: "fmul c 0 = 0" "fmul 0 c = 0" "fadd 0 0 = 0" "fsub 0 0 = 0" "fsub 1 1 = 0" for c
    by (simp_all add: fmul_def fadd_def fsub_def f64_0)
  have o: "fsub 0 1 = - 1" "fmul 2 1 = 2" "fsub 2 1 = 1" "fsub 1 0 = 1" "fadd 0 1 = 1"
    "fmul 1 255 = 255"
    by (simp_all add: fmul_def fadd_def fsub_def f64_minus_1 f64_2 f64_1 f64_255)
  have black: "hsl2rgb_f64 hue sat 0 = [0, 0, 0]"
    by (simp add: hsl2rgb_f64_def Let_def intermediate_rgb_def z o)
  have white: "hsl2rgb_f64 hue sat 1 = [255, 255, 255]"
    by (simp add: hsl2rgb_f64_def Let_def intermediate_rgb_def z o)
  from exact black white show ?thesis by simp
qed

subsection \<open>The range of the channels\<close>

lemma chroma_bounds:
  fixes sat lig :: real
  assumes "0 \<le> sat" "sat \<le> 1" "0 \<le> lig" "lig \<le> 1"
  defines "chroma \<equiv> (1 - \<bar>2 * lig - 1\<bar>) * sat"
  shows "0 \<le> chroma" "0 \<le> lig - chroma * (1 / 2)" "chroma + (lig - chroma * (1 / 2)) \<le> 1"
proof -
  define m where "m = 1 - \<bar>2 * lig - 1\<bar>"
  have m: "0 \<le> m" "m \<le> 2 * lig" "m \<le> 2 - 2 * lig"
    using assms(3,4) by (simp_all add: m_def abs_le_iff)
  have c: "chroma = m * sat" by (simp add: chroma_def m_def)
  have "m * sat \<le> m * 1" using assms(2) m(1) by (intro mult_left_mono)
  then have le: "chroma \<le> m" by (simp add: c)
  show "0 \<le> chroma" using m(1) assms(1) by (simp add: c)
  show "0 \<le> lig - chroma * (1 / 2)" using le m(2) by simp
  show "chroma + (lig - chroma * (1 / 2)) \<le> 1" using le m(3) by simp
qed

lemma channel_range:
  fixes v add_on chroma :: real
  assumes "0 \<le> v" "v \<le> chroma" "0 \<le> add_on" "chroma + add_on \<le> 1"
  shows "0 \<le> \<lfloor>(v + add_on) * 255\<rfloor> \<and> \<lfloor>(v + add_on) * 255\<rfloor> \<le> 255"
proof -
  have "0 \<le> (v + add_on) * 255" "(v + add_on) * 255 \<le> 255" using assms by simp_all
  then show ?thesis by (simp add: floor_le_iff le_floor_iff)
qed

lemma intermediate_rgb_range:
  assumes "0 \<le> chroma" "0 \<le> iv" "iv \<le> chroma" "k < 3"
  shows "0 \<le> intermediate_rgb s chroma iv ! k \<and> intermediate_rgb s chroma iv ! k \<le> chroma"
proof -
  from assms(4) have "k = 0 \<or> k = 1 \<or> k = 2" by arith
  then show ?thesis using assms(1-3) by (auto simp: intermediate_rgb_def)
qed

lemma intermediate_rgb_default:
  assumes "s < 0" "0 \<le> chroma" "k < 3"
  shows "0 \<le> intermediate_rgb s chroma iv ! k \<and> intermediate_rgb s chroma iv ! k \<le> chroma"
proof -
  from assms(3) have "k = 0 \<or> k = 1 \<or> k = 2" by arith
  then show ?thesis using assms(1,2) by (auto simp: intermediate_rgb_def)
qed

text \<open>
  In exact arithmetic every channel is an integer between 0 and 255 as soon as the
  saturation and the lightness are in \<open>[0, 1]\<close>: the smallest value added to
  \<open>add_on\<close> is 0, and \<open>add_on = lig - chroma / 2\<close> is never negative.
\<close>

lemma hsl2rgb_exact_range:
  assumes "0 \<le> sat" "sat \<le> 1" "0 \<le> lig" "lig \<le> 1" "k < 3"
  shows "0 \<le> hsl2rgb hue sat lig ! k \<and> hsl2rgb hue sat lig ! k \<le> 255"
proof -
  define chroma where "chroma = (1 - \<bar>2 * lig - 1\<bar>) * sat"
  define iv where "iv = chroma * (1 - \<bar>js_rem (hue / 60) 2 - 1\<bar>)"
  define add_on where "add_on = lig - chroma * (1 / 2)"
  define irgb where "irgb = intermediate_rgb \<lfloor>hue / 60\<rfloor> chroma iv"
  have c: "0 \<le> chroma" "0 \<le> add_on" "chroma + add_on \<le> 1"
    using chroma_bounds [OF assms(1-4)] by (simp_all add: chroma_def add_on_def)
  have i: "0 \<le> irgb ! k \<and> irgb ! k \<le> chroma"
  proof (cases "0 \<le> hue")
    case True
    then have "0 \<le> js_rem (hue / 60) 2 \<and> js_rem (hue / 60) 2 < 2"
      by (intro js_rem_2_range) simp
    then have "0 \<le> 1 - \<bar>js_rem (hue / 60) 2 - 1\<bar>" "1 - \<bar>js_rem (hue / 60) 2 - 1\<bar> \<le> 1"
      by (simp_all add: abs_le_iff)
    then have "0 \<le> iv" "iv \<le> chroma * 1"
      unfolding iv_def using c(1) by (simp, intro mult_left_mono)
    then show ?thesis
      unfolding irgb_def using c(1) assms(5) by (intro intermediate_rgb_range) simp_all
  next
    case False
    then have "\<lfloor>hue / 60\<rfloor> < 0" by (simp add: floor_less_iff)
    then show ?thesis
      unfolding irgb_def using c(1) assms(5) by (intro intermediate_rgb_default)
  qed
  have r: "hsl2rgb hue sat lig = [\<lfloor>(irgb ! 0 + add_on) * 255\<rfloor>, \<lfloor>(irgb ! 1 + add_on) * 255\<rfloor>,
      \<lfloor>(irgb ! 2 + add_on) * 255\<rfloor>]"
    unfolding hsl2rgb_def Let_def chroma_def [symmetric] iv_def [symmetric] add_on_def [symmetric]
      irgb_def [symmetric] ..
  have "hsl2rgb hue sat lig ! k = \<lfloor>(irgb ! k + add_on) * 255\<rfloor>"
  proof -
    from assms(5) have "k = 0 \<or> k = 1 \<or> k = 2" by arith
    then show ?thesis unfolding r by auto
  qed
  then show ?thesis
    using channel_range [of "irgb ! k" chroma add_on] i c by simp
qed

text \<open>
  In binary64 arithmetic \<open>add_on\<close> can be rounded to a negative value. For hue 0,
  saturation 1 and lightness \<open>0.15\<close>, the subtraction \<open>2 * lig - 1\<close> is a tie and rounds
  to the even neighbour, the chroma becomes \<open>0.30000000000000004\<close>, \<open>add_on\<close> becomes
  \<open>- 1 / 2 ^ 55\<close>, and \<open>Math.floor\<close> of the green and of the blue channel is \<open>- 1\<close>.
\<close>

lemma hsl2rgb_f64_at_0_1_015:
  "hsl2rgb_f64 0 1 (5404319552844595 / 2 ^ 55) = [76, - 1, - 1]"
proof -
  have "hsl2rgb_f64 0 1 (5404319552844595 / 2 ^ 55)
      = [\<lfloor>5383208929591297 / 2 ^ 46 :: real\<rfloor>, \<lfloor>- 255 / 2 ^ 55 :: real\<rfloor>,
         \<lfloor>- 255 / 2 ^ 55 :: real\<rfloor>]"
  proof (rule hsl2rgb_f64_steps)
    show "fmul 2 (5404319552844595 / 2 ^ 55) = 5404319552844595 / 2 ^ 54"
      by (simp add: f64_eval)
    show "fsub (5404319552844595 / 2 ^ 54) 1 = - 3152519739159347 / 2 ^ 52"
      by (simp add: f64_eval)
    show "fsub 1 \<bar>- 3152519739159347 / 2 ^ 52\<bar> = 1351079888211149 / 2 ^ 52"
      by (simp add: f64_eval)
    show "fmul (1351079888211149 / 2 ^ 52) 1 = 1351079888211149 / 2 ^ 52"
      by (simp add: f64_eval)
    show "fdiv 0 60 = 0"
      by (simp add: f64_eval)
    show "fsub (js_rem 0 2) 1 = - 1"
      by (simp add: f64_eval js_rem_0_2)
    show "fsub 1 \<bar>- 1\<bar> = 0"
      by (simp add: f64_eval)
    show "fmul (1351079888211149 / 2 ^ 52) 0 = 0"
      by (simp add: f64_eval)
    show "fmul (1351079888211149 / 2 ^ 52) (1 / 2) = 1351079888211149 / 2 ^ 53"
      by (simp add: f64_eval)
    show "fsub (5404319552844595 / 2 ^ 55) (1351079888211149 / 2 ^ 53) = - 1 / 2 ^ 55"
      by (simp add: f64_eval)
    show "intermediate_rgb \<lfloor>0\<rfloor> (1351079888211149 / 2 ^ 52) 0
        = [1351079888211149 / 2 ^ 52, 0, 0]"
      by (simp add: intermediate_rgb_def)
    show "fmul (fadd (1351079888211149 / 2 ^ 52) (- 1 / 2 ^ 55)) 255
        = 5383208929591297 / 2 ^ 46"
      by (simp add: f64_eval)
    show "fmul (fadd 0 (- 1 / 2 ^ 55)) 255 = - 255 / 2 ^ 55"
      by (simp add: f64_eval)
    show "fmul (fadd 0 (- 1 / 2 ^ 55)) 255 = - 255 / 2 ^ 55"
      by (simp add: f64_eval)
  qed
  then show ?thesis
    by (simp add: ceiling_def)
qed

text \<open>
  C4. The channels returned by \<open>hsl2rgb\<close> are not always in \<open>[0, 255]\<close>: at
  \<open>hsl2rgb(0, 1, 0.15)\<close> the code returns \<open>[76, -1, -1]\<close>, while the exact value of the
  same expression is \<open>[76, 0, 0]\<close>.
\<close>

theorem hsl2rgb_f64_negative_channel:
  "hsl2rgb_f64 0 1 (f64 (15 / 100)) = [76, - 1, - 1]
   \<and> hsl2rgb 0 1 (f64 (15 / 100)) = [76, 0, 0]"
proof -
  have exact: "hsl2rgb 0 1 (5404319552844595 / 2 ^ 55) = [76, 0, 0]"
    by (simp add: hsl2rgb_def intermediate_rgb_def js_rem_0_2)
  show ?thesis
    unfolding f64_15_100 by (rule conjI [OF hsl2rgb_f64_at_0_1_015 exact])
qed

subsection \<open>rgb2hsl\<close>

lemma roundUp_cases: "roundUp x a = \<lfloor>x\<rfloor> \<or> roundUp x a = \<lceil>x\<rceil>"
  by (simp add: roundUp_def Let_def)

lemma roundUp_bounds:
  assumes "of_int lo \<le> x" "x \<le> of_int hi"
  shows "lo \<le> roundUp x a \<and> roundUp x a \<le> hi"
proof -
  have "lo \<le> \<lfloor>x\<rfloor>" "\<lfloor>x\<rfloor> \<le> hi" "lo \<le> \<lceil>x\<rceil>" "\<lceil>x\<rceil> \<le> hi"
    using assms by (simp_all add: le_floor_iff floor_le_iff ceiling_le_iff le_ceiling_iff)
  then show ?thesis
    using roundUp_cases [of x a] by auto
qed


lemma ratio_bounds:
  fixes n d :: real
  assumes "0 < d" "\<bar>n\<bar> \<le> d"
  shows "- 1 \<le> n / d \<and> n / d \<le> 1"
  using assms by (simp add: field_simps abs_le_iff)

lemma rgb2hsl_hue_range: "0 \<le> rgb2hsl_hue r g b \<and> rgb2hsl_hue r g b < 360"
proof -
  define mx where "mx = max r (max g b)"
  define mn where "mn = min r (min g b)"
  show ?thesis
  proof (cases "mx = mn")
    case True
    then show ?thesis by (simp add: rgb2hsl_hue_def mx_def mn_def)
  next
    case False
    define qa qb qc where "qa = (g - b) / (mx - mn)" and "qb = (b - r) / (mx - mn)"
      and "qc = (r - g) / (mx - mn)"
    from False have d: "0 < mx - mn" by (simp add: mx_def mn_def)
    have "\<bar>g - b\<bar> \<le> mx - mn" "\<bar>b - r\<bar> \<le> mx - mn" "\<bar>r - g\<bar> \<le> mx - mn"
      by (simp_all add: mx_def mn_def)
    then have q: "- 1 \<le> qa \<and> qa \<le> 1" "- 1 \<le> qb \<and> qb \<le> 1" "- 1 \<le> qc \<and> qc \<le> 1"
      unfolding qa_def qb_def qc_def using d ratio_bounds by blast+
    define hue where "hue = (if mx = r then 60 * qa else if mx = g then 60 * (2 + qb)
      else 60 * (4 + qc))"
    have "rgb2hsl_hue r g b = (if hue < 0 then hue + 360 else hue)"
      unfolding rgb2hsl_hue_def Let_def mx_def [symmetric] mn_def [symmetric]
      using False by (simp add: hue_def qa_def qb_def qc_def)
    moreover have "- 60 \<le> hue \<and> hue \<le> 300"
      using q by (simp add: hue_def)
    ultimately show ?thesis by simp
  qed
qed

lemma saturation_range:
  fixes mx mn l :: real
  assumes "0 \<le> mn" "mn \<le> mx" "mx \<le> 1" "mx \<noteq> 0" "mn \<noteq> 1"
    and l: "l = (mx + mn) * (1 / 2)"
  shows "0 \<le> (mx - l) / min l (1 - l) \<and> (mx - l) / min l (1 - l) \<le> 1"
proof -
  have p: "0 < min l (1 - l)" using assms by simp
  have "0 \<le> mx - l" "mx - l \<le> min l (1 - l)" using assms by simp_all
  then show ?thesis using p by (simp add: field_simps)
qed


lemma rgb2hsl_hue_255_0_1: "rgb2hsl_hue (255 / 255) (0 / 255) (1 / 255) = 360 - 60 / 255"
  by (simp add: rgb2hsl_hue_def)



text \<open>
  The claim C3 fails at \<open>rgb2hsl(255, 0, 1)\<close>: the hue before rounding is
  \<open>360 - 60 / 255\<close>, and it is rounded to 360, which is outside \<open>[0, 360)\<close>.
\<close>

theorem rgb2hsl_hue_360: "rgb2hsl 255 0 1 ! 0 = 360 \<and> \<not> rgb2hsl 255 0 1 ! 0 < 360"
proof -
  have "rgb2hsl 255 0 1 ! 0 = 360"
    unfolding rgb2hsl_def Let_def
    apply (simp only: of_int_numeral of_int_0 of_int_1 rgb2hsl_hue_255_0_1)
    apply (simp add: roundUp_def ceiling_def)
    done
  then show ?thesis by simp
qed

text \<open>
  C3, amended. For integer channels in \<open>[0, 255]\<close>, \<open>rgb2hsl\<close> returns a hue in the
  closed interval \<open>[0, 360]\<close>, a saturation in \<open>[0, 1]\<close> and a lightness in \<open>[0, 1]\<close>.
\<close>

theorem rgb2hsl_range:
  assumes "0 \<le> R" "R \<le> 255" "0 \<le> G" "G \<le> 255" "0 \<le> B" "B \<le> 255"
  shows "0 \<le> rgb2hsl R G B ! 0 \<and> rgb2hsl R G B ! 0 \<le> 360
       \<and> 0 \<le> rgb2hsl R G B ! 1 \<and> rgb2hsl R G B ! 1 \<le> 1
       \<and> 0 \<le> rgb2hsl R G B ! 2 \<and> rgb2hsl R G B ! 2 \<le> 1"
proof -
  define r g b :: real where "r = of_int R / 255" and "g = of_int G / 255" and "b = of_int B / 255"
  define mx mn where "mx = max r (max g b)" and "mn = min r (min g b)"
  define l where "l = (mx + mn) * (1 / 2)"
  define s where "s = (if mx = 0 \<or> mn = 1 then 0 else (mx - l) / min l (1 - l))"
  have rgb: "0 \<le> r" "r \<le> 1" "0 \<le> g" "g \<le> 1" "0 \<le> b" "b \<le> 1"
    using assms by (simp_all add: r_def g_def b_def)
  then have m: "0 \<le> mn" "mn \<le> mx" "mx \<le> 1"
    unfolding mx_def mn_def by simp_all
  have hue: "0 \<le> roundUp (rgb2hsl_hue r g b) 5 \<and> roundUp (rgb2hsl_hue r g b) 5 \<le> 360"
    using rgb2hsl_hue_range [of r g b] by (intro roundUp_bounds) simp_all
  have "0 \<le> s \<and> s \<le> 1"
    using saturation_range [OF m _ _ l_def] by (simp add: s_def)
  then have sat: "0 \<le> roundUp (s * 100) 5 \<and> roundUp (s * 100) 5 \<le> 100"
    by (intro roundUp_bounds) simp_all
  have "0 \<le> l \<and> l \<le> 1" using m by (simp add: l_def)
  then have lig: "0 \<le> roundUp (l * 100) 5 \<and> roundUp (l * 100) 5 \<le> 100"
    by (intro roundUp_bounds) simp_all
  have eq: "rgb2hsl R G B = [of_int (roundUp (rgb2hsl_hue r g b) 5),
      of_int (roundUp (s * 100) 5) * (1 / 100), of_int (roundUp (l * 100) 5) * (1 / 100)]"
    unfolding rgb2hsl_def Let_def r_def [symmetric] g_def [symmetric] b_def [symmetric]
      mx_def [symmetric] mn_def [symmetric] l_def [symmetric] s_def [symmetric] ..
  show ?thesis
    unfolding eq using hue sat lig by simp
qed

theorem rgb2hsl_range_witness:
  "0 \<le> rgb2hsl 255 0 1 ! 0 \<and> rgb2hsl 255 0 1 ! 0 \<le> 360
   \<and> 0 \<le> rgb2hsl 255 0 1 ! 1 \<and> rgb2hsl 255 0 1 ! 1 \<le> 1
   \<and> 0 \<le> rgb2hsl 255 0 1 ! 2 \<and> rgb2hsl 255 0 1 ! 2 \<le> 1"
  using rgb2hsl_range [of 255 0 1] by simp

section \<open>Properties of the hue mapper\<close>

text \<open>
  C1. The hue returned by \<open>getHue\<close> is not always in \<open>[0, 360)\<close>: the remainder of a
  negative dividend is negative, and \<open>getHue(400, 10, 0)\<close> is \<open>- 30\<close>.
\<close>

theorem getHue_400_10_negative: "getHue 400 10 0 = - 30 \<and> \<not> 0 \<le> getHue 400 10 0"
proof -
  have "getHue 400 10 0 = - 30"
    by (simp add: getHue_def js_rem_def trunc_def ceiling_def)
  then show ?thesis by simp
qed

text \<open>
  The range holds whenever no dividend of \<open>%\<close> is negative, and so for every
  \<open>redStart\<close> and \<open>theta\<close> in \<open>[0, 360]\<close>.
\<close>

lemma getHue_dividends_in_domain:
  fixes redStart theta style :: real
  assumes "0 \<le> redStart" "redStart \<le> 360" "0 \<le> theta" "theta \<le> 360"
  shows "\<forall>a \<in> set (getHue_dividends redStart theta style). 0 \<le> a"
proof -
  have "0 \<le> js_rem (360 + 2 * redStart - (if theta = 0 then 1 else theta)) 360"
    using assms floor_mod_360_range by (subst js_rem_nonneg_dividend) auto
  then show ?thesis
    using assms by (auto simp: getHue_dividends_def Let_def)
qed

lemma getHue_range:
  fixes redStart theta style :: real
  assumes "\<forall>a \<in> set (getHue_dividends redStart theta style). 0 \<le> a"
  shows "0 \<le> getHue redStart theta style \<and> getHue redStart theta style < 360"
proof -
  have "0 \<le> 360 + (if style \<noteq> 0
      then js_rem (360 + 2 * redStart - (if theta = 0 then 1 else theta)) 360
      else (if theta = 0 then 1 else theta)) - redStart" (is "0 \<le> ?d")
    using assms by (auto simp: getHue_dividends_def Let_def)
  then have "js_rem ?d 360 = floor_mod ?d 360"
    by (rule js_rem_nonneg_dividend)
  moreover have "getHue redStart theta style = js_rem ?d 360"
    by (simp add: getHue_def Let_def)
  ultimately show ?thesis
    using floor_mod_360_range [of ?d] by simp
qed







section \<open>Properties of the wheel rasterizer\<close>

text \<open>
  From here on the side of the image is a whole number \<open>n\<close> of pixels with
  \<open>2 * outer_radius = n\<close>, as \<open>createImageData(2 * outer_radius, 2 * outer_radius)\<close>
  allocates it. Round \<open>i\<close> of the loop over \<open>x\<close> has \<open>x = i - outer_radius\<close>, and then
  \<open>adjusted_x\<close> is \<open>i\<close>; likewise for \<open>y\<close> and the row \<open>j\<close>.
\<close>

lemma px_set_nat: "px_set pixels (real m) v = pixels[m := to_uint8_clamp v]"
  by (simp add: px_set_def list_update_beyond)

lemma fill_pixel_step:
  assumes "2 * outer_radius w = real n"
  shows "fill_pixel w (real i - outer_radius w) (real j - outer_radius w) pixels
       = pixel_step w n pixels (i, j)"
proof -
  have idx: "(real j - outer_radius w + outer_radius w) * (2 * outer_radius w)
      + (real i - outer_radius w + outer_radius w) = real (j * n + i)"
    using assms by simp
  have k: "real (j * n + i) * 4 + 0 = real (4 * (j * n + i))"
    "real (j * n + i) * 4 + 1 = real (4 * (j * n + i) + 1)"
    "real (j * n + i) * 4 + 2 = real (4 * (j * n + i) + 2)"
    "real (j * n + i) * 4 + 3 = real (4 * (j * n + i) + 3)"
    by simp_all
  show ?thesis
    unfolding fill_pixel_def pixel_step_def Let_def idx k px_set_nat
    by (auto simp: in_ring_def write_rgba_def pixel_rgba_def Let_def)
qed

text \<open>Both loops are folds of \<open>pixel_step\<close> over the pixels they visit, in their order.\<close>

lemma column_loop_foldl:
  assumes "2 * outer_radius w = real n" "j \<le> n"
  shows "column_loop w (real i - outer_radius w) (real j - outer_radius w) pixels
       = foldl (pixel_step w n) pixels (map (Pair i) [j..<n])"
  using assms(2)
proof (induction "n - j" arbitrary: j pixels)
  case 0
  then have "j = n" by simp
  then have "\<not> real j - outer_radius w < outer_radius w" using assms(1) by simp
  then show ?case using \<open>j = n\<close> by (subst column_loop.simps) simp
next
  case (Suc k)
  then have lt: "j < n" by simp
  then have c: "real j - outer_radius w < outer_radius w" using assms(1) by simp
  have s: "real j - outer_radius w + 1 = real (Suc j) - outer_radius w" by simp
  have "column_loop w (real i - outer_radius w) (real j - outer_radius w) pixels
      = column_loop w (real i - outer_radius w) (real (Suc j) - outer_radius w)
          (pixel_step w n pixels (i, j))"
    using c by (subst column_loop.simps) (simp only: s fill_pixel_step [OF assms(1)] if_True)
  also have "\<dots> = foldl (pixel_step w n) (pixel_step w n pixels (i, j)) (map (Pair i) [Suc j..<n])"
    using Suc lt by (intro Suc.hyps(1)) simp_all
  also have "\<dots> = foldl (pixel_step w n) pixels (map (Pair i) [j..<n])"
    using lt by (simp add: upt_conv_Cons)
  finally show ?case .
qed

lemma wheel_loop_foldl:
  assumes "2 * outer_radius w = real n" "i \<le> n"
  shows "wheel_loop w (real i - outer_radius w) pixels
       = foldl (pixel_step w n) pixels (List.product [i..<n] [0..<n])"
  using assms(2)
proof (induction "n - i" arbitrary: i pixels)
  case 0
  then have "i = n" by simp
  then have "\<not> real i - outer_radius w < outer_radius w" using assms(1) by simp
  then show ?case using \<open>i = n\<close> by (subst wheel_loop.simps) simp
next
  case (Suc k)
  then have lt: "i < n" by simp
  then have c: "real i - outer_radius w < outer_radius w" using assms(1) by simp
  have s: "real i - outer_radius w + 1 = real (Suc i) - outer_radius w" by simp
  have z: "- outer_radius w = real 0 - outer_radius w" by simp
  have col: "column_loop w (real i - outer_radius w) (- outer_radius w) pixels
      = foldl (pixel_step w n) pixels (map (Pair i) [0..<n])"
    unfolding z by (rule column_loop_foldl [OF assms(1)]) simp
  have "wheel_loop w (real i - outer_radius w) pixels
      = wheel_loop w (real (Suc i) - outer_radius w)
          (foldl (pixel_step w n) pixels (map (Pair i) [0..<n]))"
    using c by (subst wheel_loop.simps) (simp only: s col if_True)
  also have "\<dots> = foldl (pixel_step w n) (foldl (pixel_step w n) pixels (map (Pair i) [0..<n]))
      (List.product [Suc i..<n] [0..<n])"
    using Suc lt by (intro Suc.hyps(1)) simp_all
  also have "\<dots> = foldl (pixel_step w n) pixels (List.product [i..<n] [0..<n])"
    using lt by (simp add: upt_conv_Cons)
  finally show ?case .
qed

lemma length_pixel_step: "length (pixel_step w n pixels p) = length pixels"
  by (simp add: pixel_step_def write_rgba_def Let_def)

lemma length_foldl_pixel_step: "length (foldl (pixel_step w n) pixels ps) = length pixels"
  by (induction ps arbitrary: pixels) (simp_all add: length_pixel_step)

lemma length_pixel_rgba: "length (pixel_rgba w x y) = 4"
  by (simp add: pixel_rgba_def Let_def)

text \<open>Four stores at \<open>4 * q\<close> and the three indices after it change pixel \<open>q\<close> alone.\<close>

lemma nth_write_rgba:
  assumes "idx < length pixels" "length bs = 4"
  shows "write_rgba pixels (4 * q) bs ! idx
       = (if idx div 4 = q then bs ! (idx mod 4) else pixels ! idx)"
proof (cases "idx div 4 = q")
  case True
  then have "idx = 4 * q + idx mod 4" by (metis mult_div_mod_eq)
  moreover have "idx mod 4 = 0 \<or> idx mod 4 = 1 \<or> idx mod 4 = 2 \<or> idx mod 4 = 3" by arith
  ultimately show ?thesis
    using True assms by (auto simp: write_rgba_def nth_list_update)
next
  case False
  then have "idx \<noteq> 4 * q" "idx \<noteq> 4 * q + 1" "idx \<noteq> 4 * q + 2" "idx \<noteq> 4 * q + 3"
    by auto
  with False show ?thesis by (simp add: write_rgba_def)
qed

lemma nth_pixel_step:
  assumes "idx < length pixels" "fst p < n"
  shows "pixel_step w n pixels p ! idx
       = (if pixel_of n idx = p then rendered_byte w n (pixels ! idx) idx else pixels ! idx)"
proof -
  define q where "q = snd p * n + fst p"
  define x y where "x = real (fst p) - outer_radius w" and "y = real (snd p) - outer_radius w"
  have iff: "idx div 4 = q \<longleftrightarrow> pixel_of n idx = p"
  proof
    assume "idx div 4 = q"
    then show "pixel_of n idx = p" using assms(2) by (simp add: pixel_of_def prod_eq_iff q_def)
  next
    assume "pixel_of n idx = p"
    then have "fst p = idx div 4 mod n" "snd p = idx div 4 div n" by (auto simp: pixel_of_def)
    then show "idx div 4 = q" by (simp add: q_def)
  qed
  have step: "pixel_step w n pixels p
      = (if in_ring w x y then write_rgba pixels (4 * q) (pixel_rgba w x y) else pixels)"
    unfolding pixel_step_def Let_def q_def x_def y_def ..
  show ?thesis
  proof (cases "pixel_of n idx = p")
    case True
    then have "rendered_byte w n (pixels ! idx) idx
        = (if in_ring w x y then pixel_rgba w x y ! (idx mod 4) else pixels ! idx)"
      by (simp add: rendered_byte_def x_def y_def)
    moreover from True iff have "idx div 4 = q" by simp
    ultimately show ?thesis
      using True assms(1) unfolding step by (simp add: nth_write_rgba length_pixel_rgba)
  next
    case False
    with iff have "idx div 4 \<noteq> q" by simp
    with False show ?thesis
      using assms(1) unfolding step by (simp add: nth_write_rgba length_pixel_rgba)
  qed
qed

lemma rendered_byte_idem:
  "rendered_byte w n (rendered_byte w n old idx) idx = rendered_byte w n old idx"
  by (simp add: rendered_byte_def Let_def)

text \<open>
  After any sequence of rounds, a byte holds the value computed from its own pixel if
  that pixel was visited, and its previous value otherwise. The order of the rounds
  and the number of visits do not matter.
\<close>

lemma nth_foldl_pixel_step:
  assumes "idx < length pixels" "\<forall>p \<in> set ps. fst p < n"
  shows "foldl (pixel_step w n) pixels ps ! idx
       = (if pixel_of n idx \<in> set ps then rendered_byte w n (pixels ! idx) idx
          else pixels ! idx)"
  using assms(2)
proof (induction ps rule: rev_induct)
  case Nil
  then show ?case by simp
next
  case (snoc p ps)
  have len: "idx < length (foldl (pixel_step w n) pixels ps)"
    using assms(1) by (simp add: length_foldl_pixel_step)
  from snoc.prems have p: "fst p < n" and ps: "\<forall>p \<in> set ps. fst p < n" by simp_all
  show ?case
    using snoc.IH [OF ps] nth_pixel_step [OF len p, of w]
    by (auto simp: rendered_byte_idem)
qed

lemma pixel_order_irrelevant:
  assumes "set ps = set ps'" "\<forall>p \<in> set ps. fst p < n"
  shows "foldl (pixel_step w n) pixels ps = foldl (pixel_step w n) pixels ps'"
proof (rule nth_equalityI)
  show "length (foldl (pixel_step w n) pixels ps) = length (foldl (pixel_step w n) pixels ps')"
    by (simp add: length_foldl_pixel_step)
next
  fix idx
  assume "idx < length (foldl (pixel_step w n) pixels ps)"
  then have "idx < length pixels" by (simp add: length_foldl_pixel_step)
  then show "foldl (pixel_step w n) pixels ps ! idx = foldl (pixel_step w n) pixels ps' ! idx"
    using assms by (simp add: nth_foldl_pixel_step)
qed

lemma wheel_loop_all_pixels:
  assumes "2 * outer_radius w = real n"
  shows "wheel_loop w (- outer_radius w) pixels
       = foldl (pixel_step w n) pixels (List.product [0..<n] [0..<n])"
  using wheel_loop_foldl [OF assms, of 0 pixels] by simp

lemma length_wheel_loop:
  assumes "2 * outer_radius w = real n"
  shows "length (wheel_loop w (- outer_radius w) pixels) = length pixels"
  by (simp add: wheel_loop_all_pixels [OF assms] length_foldl_pixel_step)

lemma nth_wheel_loop:
  assumes "2 * outer_radius w = real n" "length pixels = 4 * n * n" "idx < 4 * n * n"
  shows "wheel_loop w (- outer_radius w) pixels ! idx = rendered_byte w n (pixels ! idx) idx"
proof -
  from assms(3) have n: "0 < n" by (cases n) simp_all
  from assms(3) have "idx div 4 < n * n" by simp
  then have "idx div 4 div n < n" by (simp add: less_mult_imp_div_less)
  with n have "pixel_of n idx \<in> set (List.product [0..<n] [0..<n])"
    by (simp add: pixel_of_def)
  moreover have "\<forall>p \<in> set (List.product [0..<n] [0..<n]). fst p < n" by auto
  ultimately show ?thesis
    using assms(2,3) by (simp add: wheel_loop_all_pixels [OF assms(1)] nth_foldl_pixel_step)
qed





text \<open>
  For \<open>drawHueWheel\<close> on the fresh image, whose bytes are all zero: the picture is the
  byte-by-byte map alone, and every byte outside the ring stays zero.
\<close>

lemma drawHueWheel_fresh_image:
  assumes "2 * ((inner_radius0 + thickness) * scale) = real n"
  shows "drawHueWheel scale inner_radius0 thickness None None None None None
           (replicate (4 * n * n) 0)
       = map (rendered_byte \<lparr>outer_radius = (inner_radius0 + thickness) * scale,
                inner_radius = inner_radius0 * scale, redStart = 90, style = 0,
                saturation = 1, lightness = 1 / 2, opacity = 255\<rparr> n 0) [0..<4 * n * n]"
proof -
  define w where "w = \<lparr>outer_radius = (inner_radius0 + thickness) * scale,
    inner_radius = inner_radius0 * scale, redStart = 90, style = 0,
    saturation = 1, lightness = 1 / 2, opacity = 255 :: real\<rparr>"
  have r: "2 * outer_radius w = real n" using assms by (simp add: w_def)
  have "wheel_loop w (- outer_radius w) (replicate (4 * n * n) 0)
      = map (rendered_byte w n 0) [0..<4 * n * n]"
  proof (rule nth_equalityI)
    show "length (wheel_loop w (- outer_radius w) (replicate (4 * n * n) 0))
        = length (map (rendered_byte w n 0) [0..<4 * n * n])"
      by (simp add: length_wheel_loop [OF r])
  next
    fix idx
    assume "idx < length (wheel_loop w (- outer_radius w) (replicate (4 * n * n) 0))"
    then have "idx < 4 * n * n" by (simp add: length_wheel_loop [OF r])
    then show "wheel_loop w (- outer_radius w) (replicate (4 * n * n) 0) ! idx
        = map (rendered_byte w n 0) [0..<4 * n * n] ! idx"
      using nth_wheel_loop [OF r, of "replicate (4 * n * n) 0" idx] by simp
  qed
  then show ?thesis
    by (simp add: drawHueWheel_def w_def)
qed


end
